theory Spec2Isabelle
  imports Main "HOL-Library.Word" "HOL-Library.Multiset"
begin

section \<open>Data model of the Konfiguration API (package v1)\<close>

text \<open>
  The accessors of \<^verbatim>\<open>api/v1/konfiguration_utils.go\<close> read the Go structs of the
  Konfiguration resource. The structs are written here as records, with the field types
  the accessors and the CRD schema (\<^verbatim>\<open>apps.kubecfg.io_konfigurations.yaml\<close>) give
  them: a Go pointer that may be nil is an \<open>option\<close>, a Go map is a partial function, a
  slice is a list, \<^verbatim>\<open>time.Duration\<close> is a signed 64-bit integer, a Go string is a list
  of bytes (\<open>string\<close>).
\<close>

type_synonym Duration = "64 word"

record MetaDuration =
  Duration :: Duration

record NamespacedName =
  nn_Namespace :: string
  nn_Name :: string

record LocalObjectReference =
  lor_Name :: string

record KubeConfig =
  SecretRef :: LocalObjectReference

record Variables =
  ExtStr :: "string \<rightharpoonup> string"
  ExtCode :: "string \<rightharpoonup> string"
  TLAStr :: "string \<rightharpoonup> string"
  TLACode :: "string \<rightharpoonup> string"

record CrossNamespaceSourceReference =
  src_APIVersion :: string
  src_Kind :: string
  src_Name :: string
  src_Namespace :: string

record CrossNamespaceDependencyReference =
  dep_Namespace :: string
  dep_Name :: string

record KonfigurationSpec =
  DependsOn :: "CrossNamespaceDependencyReference list"
  DiffStrategy :: string
  Interval :: MetaDuration
  KubeConfigRef :: "KubeConfig option"
  KubecfgArgs :: "string list"
  Path :: string
  Prune :: bool
  RetryInterval :: "MetaDuration option"
  SourceRef :: "CrossNamespaceSourceReference option"
  Suspend :: bool
  Timeout :: "MetaDuration option"
  Validate :: bool
  VariablesRef :: "Variables option"

text \<open>The status subresource, with the fields of the CRD schema.\<close>

record Condition =
  cond_Type :: string
  cond_Status :: string
  cond_Reason :: string
  cond_Message :: string
  cond_LastTransitionTime :: string
  cond_ObservedGeneration :: "64 word"

record SnapshotEntry =
  entry_Namespace :: string
  entry_Kinds :: "string \<rightharpoonup> string"

record Snapshot =
  Checksum :: string
  Entries :: "SnapshotEntry list"

record KonfigurationStatus =
  Conditions :: "Condition list"
  LastAppliedRevision :: string
  LastAttemptedRevision :: string
  ObservedGeneration :: "64 word"
  SnapshotRef :: "Snapshot option"

record Konfiguration =
  Namespace :: string
  Name :: string
  Generation :: "64 word"
  Spec :: KonfigurationSpec
  Status :: KonfigurationStatus

text \<open>A \<^verbatim>\<open>corev1.Secret\<close>, as far as \<^verbatim>\<open>Fetch\<close> reads it. \<^verbatim>\<open>Data\<close> is a Go map
  from string to \<^verbatim>\<open>[]byte\<close>; a nil map is \<open>None\<close>.\<close>

type_synonym byte = "8 word"

record Secret =
  sec_Namespace :: string
  sec_Name :: string
  Data :: "(string \<rightharpoonup> byte list) option"

section \<open>Interval accessors\<close>

definition GetNamespace :: "Konfiguration \<Rightarrow> string" where
  "GetNamespace k = Namespace k"

definition GetInterval :: "Konfiguration \<Rightarrow> Duration" where
  "GetInterval k = Duration (Interval (Spec k))"

definition GetRetryInterval :: "Konfiguration \<Rightarrow> Duration" where
  "GetRetryInterval k =
     (case RetryInterval (Spec k) of
        Some d \<Rightarrow> Duration d
      | None \<Rightarrow> GetInterval k)"

definition GetTimeout :: "Konfiguration \<Rightarrow> Duration" where
  "GetTimeout k =
     (case Timeout (Spec k) of
        Some d \<Rightarrow> Duration d
      | None \<Rightarrow> GetInterval k)"

definition GetKubeConfig :: "Konfiguration \<Rightarrow> KubeConfig option" where
  "GetKubeConfig k = KubeConfigRef (Spec k)"

section \<open>Fetching the kubeconfig of a remote cluster\<close>

text \<open>
  \<^verbatim>\<open>Fetch\<close> calls \<^verbatim>\<open>c.Get(ctx, nn, &secret)\<close> on the client it is given. The client
  is an interface, so its \<^verbatim>\<open>Get\<close> is a parameter of the model: a function from the
  context and the namespaced name to either the error it returns or the secret it
  writes. The Go function returns the pair \<^verbatim>\<open>(string, error)\<close>; the model returns the
  same pair, a nil error being \<open>None\<close>. \<^verbatim>\<open>string(bytes)\<close> keeps every byte.
\<close>

type_synonym ('ctx, 'e) Client = "'ctx \<Rightarrow> NamespacedName \<Rightarrow> 'e + Secret"

datatype 'e error = ClientError 'e | Errorf string

definition string_of_bytes :: "byte list \<Rightarrow> string" where
  "string_of_bytes bs = map (\<lambda>b. char_of (unat b)) bs"

definition Fetch ::
  "KubeConfig \<Rightarrow> 'ctx \<Rightarrow> ('ctx, 'e) Client \<Rightarrow> string \<Rightarrow> string \<times> 'e error option" where
  "Fetch k ctx c namespace =
     (let nn = \<lparr>nn_Namespace = namespace, nn_Name = lor_Name (SecretRef k)\<rparr> in
      case c ctx nn of
        Inl err \<Rightarrow> ('''', Some (ClientError err))
      | Inr secret \<Rightarrow>
          (case Data secret of
             None \<Rightarrow>
               ('''', Some (Errorf (''Secret '' @ [CHR 0x27] @ sec_Namespace secret @ ''/''
                                    @ sec_Name secret @ [CHR 0x27] @ '' contains no data'')))
           | Some d \<Rightarrow>
               (case d ''value'' of
                  None \<Rightarrow>
                    ('''', Some (Errorf (''Secret '' @ [CHR 0x27] @ sec_Namespace secret @ ''/''
                                         @ sec_Name secret @ [CHR 0x27] @ '' contains no ''
                                         @ [CHR 0x27] @ ''value'' @ [CHR 0x27] @ '' key'')))
                | Some bytes \<Rightarrow> (string_of_bytes bytes, None))))"

section \<open>Plain accessors\<close>

definition GetPath :: "Konfiguration \<Rightarrow> string" where
  "GetPath k = Path (Spec k)"

definition GetVariables :: "Konfiguration \<Rightarrow> Variables option" where
  "GetVariables k = VariablesRef (Spec k)"

definition GetKubecfgArgs :: "Konfiguration \<Rightarrow> string list" where
  "GetKubecfgArgs k = KubecfgArgs (Spec k)"

definition GCEnabled :: "Konfiguration \<Rightarrow> bool" where
  "GCEnabled k = Prune (Spec k)"

definition ValidateEnabled :: "Konfiguration \<Rightarrow> bool" where
  "ValidateEnabled k = Validate (Spec k)"

definition IsSuspended :: "Konfiguration \<Rightarrow> bool" where
  "IsSuspended k = Suspend (Spec k)"

definition GetDiffStrategy :: "Konfiguration \<Rightarrow> string" where
  "GetDiffStrategy k = DiffStrategy (Spec k)"

text \<open>\<^verbatim>\<open>GetDependsOn\<close> has a value receiver: it works on a copy of the unit and returns
  the unit's own namespaced name next to the stored dependency list.\<close>

definition GetDependsOn ::
  "Konfiguration \<Rightarrow> NamespacedName \<times> CrossNamespaceDependencyReference list" where
  "GetDependsOn k =
     (\<lparr>nn_Namespace = Namespace k, nn_Name = Name k\<rparr>, DependsOn (Spec k))"

text \<open>
  \<^verbatim>\<open>GetSourceRef\<close> has a pointer receiver and assigns to
  \<^verbatim>\<open>k.Spec.SourceRef.Namespace\<close>. The model passes the unit through: it returns the
  content of the returned pointer (which is \<^verbatim>\<open>k.Spec.SourceRef\<close> itself, read after
  the assignment) together with the unit as the call leaves it.
\<close>

definition GetSourceRef ::
  "Konfiguration \<Rightarrow> CrossNamespaceSourceReference option \<times> Konfiguration" where
  "GetSourceRef k =
     (case SourceRef (Spec k) of
        Some r \<Rightarrow>
          (let k' = (if src_Namespace r = ''''
                     then k\<lparr>Spec := (Spec k)\<lparr>SourceRef :=
                            Some (r\<lparr>src_Namespace := GetNamespace k\<rparr>)\<rparr>\<rparr>
                     else k)
           in (SourceRef (Spec k'), k'))
      | None \<Rightarrow> (None, k))"

text \<open>
  The accessors of the file by name, and the unit as each call leaves it. Only
  \<^verbatim>\<open>GetSourceRef\<close> contains an assignment to the unit; every other accessor is a read.
\<close>

datatype Accessor =
    CallGetInterval | CallGetRetryInterval | CallGetTimeout | CallGetKubeConfig
  | CallGetPath | CallGetVariables | CallGetKubecfgArgs | CallGCEnabled
  | CallValidateEnabled | CallIsSuspended | CallGetDiffStrategy | CallGetDependsOn
  | CallGetSourceRef

fun unit_after :: "Accessor \<Rightarrow> Konfiguration \<Rightarrow> Konfiguration" where
  "unit_after CallGetSourceRef k = snd (GetSourceRef k)"
| "unit_after _ k = k"

section \<open>Formatting the variables as kubecfg arguments\<close>

text \<open>
  \<^verbatim>\<open>AppendToArgs\<close> ranges over four Go maps. The order in which \<^verbatim>\<open>range\<close> yields the
  entries of a map is chosen by the runtime at each loop, so it is an input of the
  model: for each of the four loops, the list of keys in the order the loop meets them.
  \<open>go_range m ks\<close> says that \<open>ks\<close> is such an order for \<open>m\<close>: every key once. A nil map
  ranges like the empty one.
\<close>

record RangeOrder =
  ord_ExtStr :: "string list"
  ord_ExtCode :: "string list"
  ord_TLAStr :: "string list"
  ord_TLACode :: "string list"

definition go_range :: "('k \<rightharpoonup> 'v) \<Rightarrow> 'k list \<Rightarrow> bool" where
  "go_range m ks \<longleftrightarrow> distinct ks \<and> set ks = dom m"

definition range_ok :: "RangeOrder \<Rightarrow> Variables \<Rightarrow> bool" where
  "range_ok ord v \<longleftrightarrow>
     go_range (ExtStr v) (ord_ExtStr ord) \<and> go_range (ExtCode v) (ord_ExtCode ord)
     \<and> go_range (TLAStr v) (ord_TLAStr ord) \<and> go_range (TLACode v) (ord_TLACode ord)"

definition range_entries :: "'k list \<Rightarrow> ('k \<rightharpoonup> 'v) \<Rightarrow> ('k \<times> 'v) list" where
  "range_entries ks m = List.map_filter (\<lambda>k. map_option (Pair k) (m k)) ks"

definition Sprintf_kv :: "string \<Rightarrow> string \<Rightarrow> string" where
  \<comment> \<open>\<^verbatim>\<open>fmt.Sprintf("%s=%s", k, v)\<close>\<close>
  "Sprintf_kv k v = k @ ''='' @ v"

fun append_range :: "string \<Rightarrow> (string \<times> string) list \<Rightarrow> string list \<Rightarrow> string list" where
  "append_range flag [] args = args"
| "append_range flag ((k, v) # es) args = append_range flag es (args @ [flag, Sprintf_kv k v])"

text \<open>The result is the returned slice together with the receiver after the call.\<close>

definition AppendToArgs :: "RangeOrder \<Rightarrow> Variables \<Rightarrow> string list \<Rightarrow> string list \<times> Variables" where
  "AppendToArgs ord v args =
     (let args = append_range ''--ext-str'' (range_entries (ord_ExtStr ord) (ExtStr v)) args;
          args = append_range ''--ext-code'' (range_entries (ord_ExtCode ord) (ExtCode v)) args;
          args = append_range ''--tla-str'' (range_entries (ord_TLAStr ord) (TLAStr v)) args;
          args = append_range ''--tla-code'' (range_entries (ord_TLACode ord) (TLACode v)) args
      in (args, v))"

text \<open>The arguments of a command line taken two by two: a flag and its value.\<close>

fun pairs_of :: "'a list \<Rightarrow> ('a \<times> 'a) list" where
  "pairs_of (x # y # zs) = (x, y) # pairs_of zs"
| "pairs_of _ = []"

definition flag_maps :: "Variables \<Rightarrow> (string \<times> (string \<rightharpoonup> string)) list" where
  "flag_maps v =
     [(''--ext-str'', ExtStr v), (''--ext-code'', ExtCode v),
      (''--tla-str'', TLAStr v), (''--tla-code'', TLACode v)]"

definition total_entries :: "Variables \<Rightarrow> nat" where
  "total_entries v =
     card (dom (ExtStr v)) + card (dom (ExtCode v))
     + card (dom (TLAStr v)) + card (dom (TLACode v))"

text \<open>The appended entries of one call, in the order the four loops meet them, each
  with its flag; and the two arguments an entry becomes.\<close>

definition appended_entries :: "RangeOrder \<Rightarrow> Variables \<Rightarrow> (string \<times> string \<times> string) list" where
  "appended_entries ord v =
     map (Pair ''--ext-str'') (range_entries (ord_ExtStr ord) (ExtStr v))
     @ map (Pair ''--ext-code'') (range_entries (ord_ExtCode ord) (ExtCode v))
     @ map (Pair ''--tla-str'') (range_entries (ord_TLAStr ord) (TLAStr v))
     @ map (Pair ''--tla-code'') (range_entries (ord_TLACode ord) (TLACode v))"

definition flag_value :: "string \<times> string \<times> string \<Rightarrow> string list" where
  "flag_value e = (case e of (f, k, x) \<Rightarrow> [f, Sprintf_kv k x])"

section \<open>The CRD schema of \<^verbatim>\<open>diffStrategy\<close>\<close>







section \<open>The dependency gate\<close>

text \<open>
  Modelled from the spec: the dependency gate \<^verbatim>\<open>isReady\<close> is not part of the files
  read here (the CRD describes \<^verbatim>\<open>dependsOn\<close> and \<^verbatim>\<open>GetDependsOn\<close> hands the list out;
  the resolution itself is absent). The definitions follow section 4.1 of the
  specification: for each entry of \<^verbatim>\<open>dependsOn\<close> the referenced unit is resolved, a
  missing unit or a \<^verbatim>\<open>Ready\<close> condition other than \<^verbatim>\<open>True\<close> gives \<open>NotReady\<close>; the
  graph is walked depth-first from the requesting unit, with the nodes of the current
  path kept as the visited set of the call, and a node met again on the current path
  gives \<open>Cycle\<close>. An empty namespace in a reference stands for the namespace of the
  unit that holds it. The units the cluster holds are a list, searched by name.
\<close>

datatype GateResult = Ready | NotReady string | Cycle

definition unit_key :: "Konfiguration \<Rightarrow> NamespacedName" where
  "unit_key k = fst (GetDependsOn k)"

definition lookup_unit :: "Konfiguration list \<Rightarrow> NamespacedName \<Rightarrow> Konfiguration option" where
  "lookup_unit units n = find (\<lambda>k. unit_key k = n) units"

definition resolve_dep :: "NamespacedName \<Rightarrow> CrossNamespaceDependencyReference \<Rightarrow> NamespacedName" where
  "resolve_dep own d =
     \<lparr>nn_Namespace = (if dep_Namespace d = '''' then nn_Namespace own else dep_Namespace d),
      nn_Name = dep_Name d\<rparr>"

definition dependencies :: "Konfiguration \<Rightarrow> NamespacedName list" where
  "dependencies k = (case GetDependsOn k of (own, deps) \<Rightarrow> map (resolve_dep own) deps)"

definition ready_condition :: "Konfiguration \<Rightarrow> bool" where
  "ready_condition k =
     (case find (\<lambda>c. cond_Type c = ''Ready'') (Conditions (Status k)) of
        None \<Rightarrow> False
      | Some c \<Rightarrow> cond_Status c = ''True'')"

function walk :: "Konfiguration list \<Rightarrow> NamespacedName list \<Rightarrow> NamespacedName \<Rightarrow> GateResult"
  and walk_deps :: "Konfiguration list \<Rightarrow> NamespacedName list \<Rightarrow> NamespacedName list \<Rightarrow> GateResult"
where
  \<comment> \<open>Modelled from the spec: the depth-first resolution of section 4.1, the visited set
      of the call being the nodes of the current path.\<close>
  "walk units path n =
     (if n \<in> set path then Cycle
      else case lookup_unit units n of
             None \<Rightarrow> NotReady ''missing''
           | Some k \<Rightarrow>
               (case walk_deps units (n # path) (dependencies k) of
                  Ready \<Rightarrow> if ready_condition k then Ready else NotReady ''not ready''
                | r \<Rightarrow> r))"
| "walk_deps units path [] = Ready"
| "walk_deps units path (d # ds) =
     (case walk units path d of
        Ready \<Rightarrow> walk_deps units path ds
      | r \<Rightarrow> r)"
  by pat_completeness auto
termination
proof (relation "measures
    [\<lambda>x. case x of
            Inl (units, path, n) \<Rightarrow> card (unit_key ` set units - set path)
          | Inr (units, path, ds) \<Rightarrow> card (unit_key ` set units - set path),
     \<lambda>x. case x of Inl (units, path, n) \<Rightarrow> 0 | Inr (units, path, ds) \<Rightarrow> Suc (length ds)]",
    goal_cases)
  case 1
  show ?case by simp
next
  case (2 units path n k)
  from 2(2) have "n \<in> unit_key ` set units"
    by (auto simp: lookup_unit_def find_Some_iff)
  with 2(1) have "unit_key ` set units - set (n # path) \<subset> unit_key ` set units - set path"
    by auto
  then have "card (unit_key ` set units - set (n # path)) < card (unit_key ` set units - set path)"
    by (intro psubset_card_mono) auto
  then show ?case by simp
next
  case 3
  show ?case by simp
next
  case 4
  show ?case by simp
qed

definition isReady :: "Konfiguration list \<Rightarrow> Konfiguration \<Rightarrow> GateResult" where
  \<comment> \<open>Modelled from the spec: the contract \<^verbatim>\<open>isReady(unit) -> Ready | NotReady(reason) | Cycle\<close>
      of section 4.1; the requesting unit is the first node of the path.\<close>
  "isReady units k = walk_deps units [unit_key k] (dependencies k)"

declare walk.simps [simp del]

text \<open>
  The visits of one resolution: \<open>visits units path n path' n'\<close> says that the walk
  started at node \<open>n\<close> under the path \<open>path\<close> reaches the node \<open>n'\<close> with \<open>path'\<close> as
  its current path. A later dependency is only reached when the earlier ones resolved
  to \<open>Ready\<close>.
\<close>

inductive visits ::
    "Konfiguration list \<Rightarrow> NamespacedName list \<Rightarrow> NamespacedName \<Rightarrow>
     NamespacedName list \<Rightarrow> NamespacedName \<Rightarrow> bool"
  and visits_deps ::
    "Konfiguration list \<Rightarrow> NamespacedName list \<Rightarrow> NamespacedName list \<Rightarrow>
     NamespacedName list \<Rightarrow> NamespacedName \<Rightarrow> bool"
where
  here: "visits units path n path n"
| below: "n \<notin> set path \<Longrightarrow> lookup_unit units n = Some k \<Longrightarrow>
          visits_deps units (n # path) (dependencies k) path' n' \<Longrightarrow>
          visits units path n path' n'"
| first: "visits units path d path' n' \<Longrightarrow> visits_deps units path (d # ds) path' n'"
| later: "walk units path d = Ready \<Longrightarrow> visits_deps units path ds path' n' \<Longrightarrow>
          visits_deps units path (d # ds) path' n'"

section \<open>The reconcile scheduler\<close>

text \<open>
  Modelled from the spec: the reconcile loop, the apply executor, the pruner and the
  status commit are not part of the files read here. The definitions follow sections
  4.2 and 4.4 to 4.6 of the specification. The answers of the external collaborators
  (source resolution, renderer, diff engine, cluster client, the number of operations
  that start before the deadline, the stale set of a snapshot, the snapshot of a
  manifest set, the clock) are the environment \<open>Env\<close> of one attempt, so that any
  failure can be injected through it. The scheduler is the state machine of section 4.6:
  \<open>step\<close> is one transition, \<open>run\<close> follows the transitions until the attempt is back
  in \<open>Idle\<close> (or parked in \<open>Suspended\<close>), and \<open>reconcile\<close> is one attempt on a unit.
  Deletion of the unit is not modelled. Creates and updates come before deletes, and
  deletes run only when every create and update succeeded, so a failed Apply goes to the
  commit without pruning. With \<^verbatim>\<open>prune=false\<close> the stale set is empty and the pruner
  has nothing to do. Where sections 4.6 and 7 differ on the \<^verbatim>\<open>Ready\<close> condition after a
  failed prune, the transition rule of section 4.6 is followed.
\<close>

datatype ClientOutcome = Done | NotFound | Conflict | Invalid | Unavailable

record ObjectRef =
  obj_Namespace :: string
  obj_Kind :: string
  obj_Name :: string

datatype OpKind = Create | Update | Delete

type_synonym Operation = "OpKind \<times> ObjectRef"

record ManifestSet =
  man_Objects :: "ObjectRef list"
  man_Checksum :: string

record AttemptResult =
  succeeded :: "Operation list"
  failed :: "(Operation \<times> ClientOutcome) list"
  aborted :: "Operation list"

datatype TerminalResult = Success | TransientFailure | FatalFailure

datatype Phase = Idle | Suspended | Gating | Rendering | Diffing | Applying | Pruning | Committing

record Attempt =
  att_revision :: "string option"
  att_manifests :: "ManifestSet option"
  att_ops :: "Operation list"
  att_apply :: "AttemptResult option"
  att_prune :: "AttemptResult option"
  att_result :: "TerminalResult option"
  att_reason :: string

record Sched =
  phase :: Phase
  sch_unit :: Konfiguration
  att :: Attempt
  requeue :: "Duration option"

record Env =
  env_units :: "Konfiguration list"
  env_resolve :: "string + string"
  env_render :: "string \<Rightarrow> string + ManifestSet"
  env_diff :: "string \<Rightarrow> ManifestSet \<Rightarrow> Operation list"
  env_client :: "Operation \<Rightarrow> ClientOutcome"
  env_budget :: nat
  env_stale :: "Snapshot option \<Rightarrow> ManifestSet \<Rightarrow> ObjectRef list"
  env_snapshot_of :: "ManifestSet \<Rightarrow> Snapshot"
  env_now :: string
  env_backoff :: Duration

definition no_result :: AttemptResult where
  "no_result = \<lparr>succeeded = [], failed = [], aborted = []\<rparr>"

definition new_attempt :: Attempt where
  "new_attempt =
     \<lparr>att_revision = None, att_manifests = None, att_ops = [], att_apply = None,
      att_prune = None, att_result = None, att_reason = ''''\<rparr>"

fun apply_ops :: "(Operation \<Rightarrow> ClientOutcome) \<Rightarrow> nat \<Rightarrow> Operation list \<Rightarrow> AttemptResult \<Rightarrow> AttemptResult" where
  "apply_ops client budget [] r = r"
| "apply_ops client 0 (op # ops) r = apply_ops client 0 ops (r\<lparr>aborted := aborted r @ [op]\<rparr>)"
| "apply_ops client (Suc b) (op # ops) r =
     (case client op of
        Done \<Rightarrow> apply_ops client b ops (r\<lparr>succeeded := succeeded r @ [op]\<rparr>)
      | e \<Rightarrow> apply_ops client b ops (r\<lparr>failed := failed r @ [(op, e)]\<rparr>))"

definition no_failures :: "AttemptResult \<Rightarrow> bool" where
  "no_failures r \<longleftrightarrow> failed r = [] \<and> aborted r = []"

definition retryable :: "ClientOutcome \<Rightarrow> bool" where
  "retryable e \<longleftrightarrow> e = Conflict \<or> e = Unavailable \<or> e = NotFound"

definition terminal_result :: "AttemptResult \<Rightarrow> TerminalResult" where
  "terminal_result r =
     (if no_failures r then Success
      else if aborted r \<noteq> [] \<or> (\<exists>f \<in> set (failed r). retryable (snd f)) then TransientFailure
      else FatalFailure)"

fun set_condition :: "Condition \<Rightarrow> Condition list \<Rightarrow> Condition list" where
  "set_condition c [] = [c]"
| "set_condition c (x # xs) =
     (if cond_Type x = cond_Type c
      then (if cond_Status x = cond_Status c
            then c\<lparr>cond_LastTransitionTime := cond_LastTransitionTime x\<rparr> else c) # xs
      else x # set_condition c xs)"

definition set_ready :: "Env \<Rightarrow> string \<Rightarrow> string \<Rightarrow> string \<Rightarrow> Konfiguration \<Rightarrow> Konfiguration" where
  "set_ready env status reason message k =
     k\<lparr>Status := (Status k)\<lparr>Conditions :=
         set_condition
           \<lparr>cond_Type = ''Ready'', cond_Status = status, cond_Reason = reason,
            cond_Message = message, cond_LastTransitionTime = env_now env,
            cond_ObservedGeneration = Generation k\<rparr>
           (Conditions (Status k))\<rparr>\<rparr>"

definition shouldRender :: "Env \<Rightarrow> Konfiguration \<Rightarrow> string \<Rightarrow> bool" where
  "shouldRender env k revision \<longleftrightarrow>
     \<not> (revision = LastAppliedRevision (Status k)
        \<and> ObservedGeneration (Status k) = Generation k
        \<and> ready_condition k)"

definition gating :: "Env \<Rightarrow> Sched \<Rightarrow> Sched" where
  "gating env s =
     (case isReady (env_units env) (sch_unit s) of
        Ready \<Rightarrow> s\<lparr>phase := Rendering\<rparr>
      | NotReady why \<Rightarrow>
          s\<lparr>phase := Idle,
            sch_unit := set_ready env ''Unknown'' ''DependencyNotReady'' why (sch_unit s),
            requeue := Some (env_backoff env)\<rparr>
      | Cycle \<Rightarrow>
          s\<lparr>phase := Idle,
            sch_unit := set_ready env ''Unknown'' ''DependencyCycle'' '''' (sch_unit s),
            requeue := Some (env_backoff env)\<rparr>)"

definition rendering :: "Env \<Rightarrow> Sched \<Rightarrow> Sched" where
  "rendering env s =
     (case env_resolve env of
        Inl e \<Rightarrow>
          s\<lparr>phase := Committing,
            att := (att s)\<lparr>att_result := Some TransientFailure, att_reason := ''RenderFailed''\<rparr>\<rparr>
      | Inr revision \<Rightarrow>
          if \<not> shouldRender env (sch_unit s) revision
          then s\<lparr>phase := Idle, requeue := Some (GetInterval (sch_unit s))\<rparr>
          else (case env_render env revision of
                  Inl e \<Rightarrow>
                    s\<lparr>phase := Committing,
                      att := (att s)\<lparr>att_revision := Some revision, att_result := Some FatalFailure,
                                     att_reason := ''RenderFailed''\<rparr>\<rparr>
                | Inr m \<Rightarrow>
                    s\<lparr>phase := Diffing,
                      att := (att s)\<lparr>att_revision := Some revision, att_manifests := Some m\<rparr>\<rparr>))"

definition diffing :: "Env \<Rightarrow> Sched \<Rightarrow> Sched" where
  "diffing env s =
     (case att_manifests (att s) of
        None \<Rightarrow> s\<lparr>phase := Committing\<rparr>
      | Some m \<Rightarrow>
          s\<lparr>phase := Applying,
            att := (att s)\<lparr>att_ops := env_diff env (GetDiffStrategy (sch_unit s)) m\<rparr>\<rparr>)"

definition applying :: "Env \<Rightarrow> Sched \<Rightarrow> Sched" where
  "applying env s =
     (let r = apply_ops (env_client env) (env_budget env) (att_ops (att s)) no_result in
      s\<lparr>phase := (if no_failures r then Pruning else Committing),
        att := (att s)\<lparr>att_apply := Some r, att_result := Some (terminal_result r),
                       att_reason := (if aborted r \<noteq> [] then ''Timeout'' else ''ApplyFailed'')\<rparr>\<rparr>)"

definition stale_set :: "Env \<Rightarrow> Sched \<Rightarrow> ObjectRef list" where
  "stale_set env s =
     (case att_manifests (att s) of
        None \<Rightarrow> []
      | Some m \<Rightarrow>
          if GCEnabled (sch_unit s)
          then env_stale env (SnapshotRef (Status (sch_unit s))) m else [])"

definition pruning :: "Env \<Rightarrow> Sched \<Rightarrow> Sched" where
  "pruning env s =
     (let r = apply_ops (env_client env) (env_budget env - length (att_ops (att s)))
                (map (Pair Delete) (stale_set env s)) no_result in
      s\<lparr>phase := Committing,
        att := (att s)\<lparr>att_prune := Some r,
                       att_result := Some (terminal_result r),
                       att_reason := (if aborted r \<noteq> [] then ''Timeout'' else ''PruneFailed'')\<rparr>\<rparr>)"

definition committed :: "Attempt \<Rightarrow> bool" where
  "committed a \<longleftrightarrow>
     (case (att_apply a, att_prune a) of
        (Some ra, Some rp) \<Rightarrow> no_failures ra \<and> no_failures rp
      | _ \<Rightarrow> False)"

definition committing :: "Env \<Rightarrow> Sched \<Rightarrow> Sched" where
  \<comment> \<open>Modelled from the spec: the commit of section 4.6. The last attempted revision is
      written always; the last applied revision, the snapshot and \<^verbatim>\<open>Ready=True\<close> only when
      Apply and Prune both report no outstanding failure.\<close>
  "committing env s =
     (let a = att s; k = sch_unit s;
          st = (Status k)\<lparr>LastAttemptedRevision :=
                  (case att_revision a of Some revision \<Rightarrow> revision | None \<Rightarrow> LastAttemptedRevision (Status k))\<rparr>
      in case (committed a, att_revision a, att_manifests a) of
           (True, Some revision, Some m) \<Rightarrow>
             s\<lparr>phase := Idle,
               sch_unit := set_ready env ''True'' ''ReconciliationSucceeded'' ''''
                  (k\<lparr>Status := st\<lparr>LastAppliedRevision := revision,
                                  ObservedGeneration := Generation k,
                                  SnapshotRef := Some (env_snapshot_of env m)\<rparr>\<rparr>),
               requeue := Some (GetInterval k)\<rparr>
         | _ \<Rightarrow>
             s\<lparr>phase := Idle,
               sch_unit := set_ready env ''False'' (att_reason a) '''' (k\<lparr>Status := st\<rparr>),
               requeue := Some (GetRetryInterval k)\<rparr>)"

definition step :: "Env \<Rightarrow> Sched \<Rightarrow> Sched" where
  \<comment> \<open>Modelled from the spec: one transition of the state machine of section 4.6.\<close>
  "step env s =
     (case phase s of
        Idle \<Rightarrow>
          if IsSuspended (sch_unit s)
          then s\<lparr>phase := Suspended, requeue := Some (GetInterval (sch_unit s))\<rparr>
          else s\<lparr>phase := Gating, att := new_attempt\<rparr>
      | Suspended \<Rightarrow> s
      | Gating \<Rightarrow> gating env s
      | Rendering \<Rightarrow> rendering env s
      | Diffing \<Rightarrow> diffing env s
      | Applying \<Rightarrow> applying env s
      | Pruning \<Rightarrow> pruning env s
      | Committing \<Rightarrow> committing env s)"

fun phase_rank :: "Phase \<Rightarrow> nat" where
  "phase_rank Idle = 0"
| "phase_rank Suspended = 0"
| "phase_rank Committing = 1"
| "phase_rank Pruning = 2"
| "phase_rank Applying = 3"
| "phase_rank Diffing = 4"
| "phase_rank Rendering = 5"
| "phase_rank Gating = 6"

function run :: "Env \<Rightarrow> Sched \<Rightarrow> Sched" where
  "run env s = (if phase s = Idle \<or> phase s = Suspended then s else run env (step env s))"
  by pat_completeness auto
termination
proof (relation "measure (\<lambda>(env, s). phase_rank (phase s))", goal_cases)
  case 1
  show ?case by simp
next
  case (2 env s)
  then show ?case
    by (cases "phase s")
       (auto simp: step_def gating_def rendering_def diffing_def applying_def pruning_def
          committing_def Let_def
          split: GateResult.splits sum.splits option.splits bool.splits)
qed

definition start :: "Konfiguration \<Rightarrow> Sched" where
  "start k = \<lparr>phase = Idle, sch_unit = k, att = new_attempt, requeue = None\<rparr>"

definition reconcile :: "Env \<Rightarrow> Konfiguration \<Rightarrow> Sched" where
  \<comment> \<open>Modelled from the spec: one reconciliation attempt, from \<open>Idle\<close> back to \<open>Idle\<close>.\<close>
  "reconcile env k = run env (step env (start k))"

declare run.simps [simp del]

section \<open>Example inputs\<close>

definition spec_A :: KonfigurationSpec where
  "spec_A =
     \<lparr>DependsOn = [\<lparr>dep_Namespace = '''', dep_Name = ''B''\<rparr>],
      DiffStrategy = ''subset'',
      Interval = \<lparr>Duration = 300\<rparr>,
      KubeConfigRef = Some \<lparr>SecretRef = \<lparr>lor_Name = ''remote''\<rparr>\<rparr>,
      KubecfgArgs = [],
      Path = ''manifests'',
      Prune = True,
      RetryInterval = Some \<lparr>Duration = 60\<rparr>,
      SourceRef = Some \<lparr>src_APIVersion = ''v1'', src_Kind = ''GitRepository'',
                         src_Name = ''repo'', src_Namespace = ''''\<rparr>,
      Suspend = False,
      Timeout = None,
      Validate = True,
      VariablesRef = None\<rparr>"

definition status_0 :: KonfigurationStatus where
  "status_0 =
     \<lparr>Conditions = [], LastAppliedRevision = '''', LastAttemptedRevision = '''',
      ObservedGeneration = 0, SnapshotRef = None\<rparr>"

definition unit_A :: Konfiguration where
  "unit_A =
     \<lparr>Namespace = ''apps'', Name = ''A'', Generation = 1, Spec = spec_A, Status = status_0\<rparr>"

definition secret_ok :: Secret where
  "secret_ok =
     \<lparr>sec_Namespace = ''apps'', sec_Name = ''remote'',
      Data = Some [''value'' \<mapsto> [0x68, 0x69]]\<rparr>"

definition client_ok :: "(unit, string) Client" where
  "client_ok ctx nn =
     (if nn = \<lparr>nn_Namespace = ''apps'', nn_Name = ''remote''\<rparr>
      then Inr secret_ok else Inl ''not found'')"

definition vars_2 :: Variables where
  "vars_2 =
     \<lparr>ExtStr = [''a'' \<mapsto> ''1'', ''b'' \<mapsto> ''2''], ExtCode = Map.empty,
      TLAStr = [''t'' \<mapsto> ''x''], TLACode = Map.empty\<rparr>"

definition order_ab :: RangeOrder where
  "order_ab = \<lparr>ord_ExtStr = [''a'', ''b''], ord_ExtCode = [],
                ord_TLAStr = [''t''], ord_TLACode = []\<rparr>"

definition order_ba :: RangeOrder where
  "order_ba = \<lparr>ord_ExtStr = [''b'', ''a''], ord_ExtCode = [],
                ord_TLAStr = [''t''], ord_TLACode = []\<rparr>"

definition unit_B :: Konfiguration where
  "unit_B =
     \<lparr>Namespace = ''apps'', Name = ''B'', Generation = 1,
      Spec = spec_A\<lparr>DependsOn := [\<lparr>dep_Namespace = ''apps'', dep_Name = ''A''\<rparr>]\<rparr>,
      Status = status_0\<rparr>"

definition unit_C :: Konfiguration where
  "unit_C =
     \<lparr>Namespace = ''apps'', Name = ''C'', Generation = 1,
      Spec = spec_A\<lparr>DependsOn := [], RetryInterval := None, SourceRef := None\<rparr>,
      Status = status_0\<rparr>"

definition key_A :: NamespacedName where
  "key_A = \<lparr>nn_Namespace = ''apps'', nn_Name = ''A''\<rparr>"

definition key_B :: NamespacedName where
  "key_B = \<lparr>nn_Namespace = ''apps'', nn_Name = ''B''\<rparr>"

definition kubeconfig_remote :: KubeConfig where
  "kubeconfig_remote = \<lparr>SecretRef = \<lparr>lor_Name = ''remote''\<rparr>\<rparr>"

definition vars_1 :: Variables where
  "vars_1 =
     \<lparr>ExtStr = [''a'' \<mapsto> ''1''], ExtCode = Map.empty,
      TLAStr = [''t'' \<mapsto> ''x''], TLACode = Map.empty\<rparr>"

definition order_1 :: RangeOrder where
  "order_1 = \<lparr>ord_ExtStr = [''a''], ord_ExtCode = [],
               ord_TLAStr = [''t''], ord_TLACode = []\<rparr>"

definition manifests_1 :: ManifestSet where
  "manifests_1 =
     \<lparr>man_Objects = [\<lparr>obj_Namespace = ''apps'', obj_Kind = ''Deployment'', obj_Name = ''D1''\<rparr>],
      man_Checksum = ''c1''\<rparr>"

definition env_ok :: Env where
  "env_ok =
     \<lparr>env_units = [],
      env_resolve = Inr ''main/1'',
      env_render = (\<lambda>revision. Inr manifests_1),
      env_diff = (\<lambda>strategy m. map (Pair Create) (man_Objects m)),
      env_client = (\<lambda>op. Done),
      env_budget = 5,
      env_stale = (\<lambda>prior m. []),
      env_snapshot_of = (\<lambda>m. \<lparr>Checksum = man_Checksum m, Entries = []\<rparr>),
      env_now = ''t1'',
      env_backoff = 30\<rparr>"

section \<open>Properties of the accessors\<close>

text \<open>\<^verbatim>\<open>string(bytes)\<close> loses nothing: the bytes are read back from the string.\<close>

lemma byte_roundtrip: "word_of_nat (of_char (char_of (unat (b :: 8 word)) :: char)) = b"
proof -
  have "unat b < 256" using unsigned_less [of b] by simp
  then show ?thesis by (simp add: of_char_of)
qed

lemma bytes_roundtrip:
  "map (\<lambda>ch. word_of_nat (of_char ch) :: 8 word) (string_of_bytes bs) = bs"
  by (induction bs) (simp_all add: string_of_bytes_def byte_roundtrip del: of_char_of)

text \<open>
  C1. \<^verbatim>\<open>Fetch\<close> returns the bytes stored under the key \<^verbatim>\<open>value\<close> of the secret, as
  a string and with a nil error, when the get succeeds and the secret has data with that
  key: the string has one character for each byte, the character with the code of the
  byte, so the bytes read back from the string are the stored ones. It returns an error
  exactly when the get fails, or the data map is nil, or the data map has no key
  \<^verbatim>\<open>value\<close>; with an error the string is empty. An error of the get is handed through
  as it is.
\<close>

theorem C1_fetch_outcomes:
  "(\<forall>s d bs. c ctx \<lparr>nn_Namespace = ns, nn_Name = lor_Name (SecretRef k)\<rparr> = Inr s
        \<and> Data s = Some d \<and> d ''value'' = Some bs \<longrightarrow>
       Fetch k ctx c ns = (map (\<lambda>b. char_of (unat b)) bs, None)
       \<and> length (fst (Fetch k ctx c ns)) = length bs
       \<and> map (\<lambda>ch. word_of_nat (of_char ch)) (fst (Fetch k ctx c ns)) = bs)
   \<and> (snd (Fetch k ctx c ns) \<noteq> None \<longleftrightarrow>
        (\<exists>e. c ctx \<lparr>nn_Namespace = ns, nn_Name = lor_Name (SecretRef k)\<rparr> = Inl e)
        \<or> (\<exists>s. c ctx \<lparr>nn_Namespace = ns, nn_Name = lor_Name (SecretRef k)\<rparr> = Inr s
               \<and> Data s = None)
        \<or> (\<exists>s d. c ctx \<lparr>nn_Namespace = ns, nn_Name = lor_Name (SecretRef k)\<rparr> = Inr s
               \<and> Data s = Some d \<and> ''value'' \<notin> dom d))
   \<and> (snd (Fetch k ctx c ns) \<noteq> None \<longrightarrow> fst (Fetch k ctx c ns) = '''')
   \<and> (\<forall>e. c ctx \<lparr>nn_Namespace = ns, nn_Name = lor_Name (SecretRef k)\<rparr> = Inl e \<longrightarrow>
         Fetch k ctx c ns = ('''', Some (ClientError e)))"
proof (intro conjI allI impI)
  fix s d bs
  assume "c ctx \<lparr>nn_Namespace = ns, nn_Name = lor_Name (SecretRef k)\<rparr> = Inr s
        \<and> Data s = Some d \<and> d ''value'' = Some bs"
  then have f: "Fetch k ctx c ns = (string_of_bytes bs, None)"
    by (simp add: Fetch_def Let_def)
  show "Fetch k ctx c ns = (map (\<lambda>b. char_of (unat b)) bs, None)"
    by (simp add: f string_of_bytes_def)
  show "length (fst (Fetch k ctx c ns)) = length bs"
    by (simp add: f string_of_bytes_def)
  show "map (\<lambda>ch. word_of_nat (of_char ch)) (fst (Fetch k ctx c ns)) = bs"
    by (simp add: f bytes_roundtrip)
qed (auto simp: Fetch_def Let_def split: sum.splits option.splits)

text \<open>The theorem at a secret that holds the two bytes of \<open>hi\<close>, and at a name the
  client does not know.\<close>

theorem C1_fetch_outcomes_witness:
  "client_ok () \<lparr>nn_Namespace = ''apps'', nn_Name = lor_Name (SecretRef kubeconfig_remote)\<rparr>
     = Inr secret_ok
   \<and> Data secret_ok = Some [''value'' \<mapsto> [0x68, 0x69]]
   \<and> Fetch kubeconfig_remote () client_ok ''apps'' = (''hi'', None)
   \<and> map (\<lambda>ch. word_of_nat (of_char ch)) (fst (Fetch kubeconfig_remote () client_ok ''apps''))
       = [0x68, 0x69 :: 8 word]
   \<and> client_ok () \<lparr>nn_Namespace = ''other'', nn_Name = lor_Name (SecretRef kubeconfig_remote)\<rparr>
     = Inl ''not found''
   \<and> Fetch kubeconfig_remote () client_ok ''other'' = ('''', Some (ClientError ''not found''))"
proof -
  have g: "client_ok () \<lparr>nn_Namespace = ''apps'', nn_Name = lor_Name (SecretRef kubeconfig_remote)\<rparr>
      = Inr secret_ok"
    by (simp add: client_ok_def kubeconfig_remote_def)
  have d: "Data secret_ok = Some [''value'' \<mapsto> [0x68, 0x69]]"
    by (simp add: secret_ok_def)
  have n: "client_ok () \<lparr>nn_Namespace = ''other'', nn_Name = lor_Name (SecretRef kubeconfig_remote)\<rparr>
      = Inl ''not found''"
    by (simp add: client_ok_def kubeconfig_remote_def)
  have hi: "map (\<lambda>b. char_of (unat (b :: 8 word))) [0x68, 0x69] = ''hi''"
    by code_simp
  from C1_fetch_outcomes [of client_ok "()" "''apps''" kubeconfig_remote] g d
  have "Fetch kubeconfig_remote () client_ok ''apps''
          = (map (\<lambda>b. char_of (unat (b :: 8 word))) [0x68, 0x69], None)"
    and b: "map (\<lambda>ch. word_of_nat (of_char ch)) (fst (Fetch kubeconfig_remote () client_ok ''apps''))
       = [0x68, 0x69 :: 8 word]"
    by simp_all
  then have a: "Fetch kubeconfig_remote () client_ok ''apps'' = (''hi'', None)"
    by (simp only: hi)
  from C1_fetch_outcomes [of client_ok "()" "''other''" kubeconfig_remote] n
  have e: "Fetch kubeconfig_remote () client_ok ''other'' = ('''', Some (ClientError ''not found''))"
    by simp
  from g d a b n e show ?thesis by (intro conjI)
qed

text \<open>
  C2. \<^verbatim>\<open>GetInterval\<close> returns the configured interval. \<^verbatim>\<open>GetRetryInterval\<close> returns
  the configured retry interval when it is set and the configured interval otherwise;
  \<^verbatim>\<open>GetTimeout\<close> returns the configured timeout when it is set and the configured
  interval otherwise; with both optional fields unset the three accessors return the same
  duration, the configured interval.
\<close>

theorem C2_interval_defaults:
  "GetInterval k = Duration (Interval (Spec k))
   \<and> (\<forall>d. RetryInterval (Spec k) = Some d \<longrightarrow> GetRetryInterval k = Duration d)
   \<and> (RetryInterval (Spec k) = None \<longrightarrow>
        GetRetryInterval k = Duration (Interval (Spec k)) \<and> GetRetryInterval k = GetInterval k)
   \<and> (\<forall>d. Timeout (Spec k) = Some d \<longrightarrow> GetTimeout k = Duration d)
   \<and> (Timeout (Spec k) = None \<longrightarrow>
        GetTimeout k = Duration (Interval (Spec k)) \<and> GetTimeout k = GetInterval k)
   \<and> (RetryInterval (Spec k) = None \<and> Timeout (Spec k) = None \<longrightarrow>
        GetRetryInterval k = Duration (Interval (Spec k))
        \<and> GetTimeout k = Duration (Interval (Spec k))
        \<and> GetInterval k = Duration (Interval (Spec k))
        \<and> GetRetryInterval k = GetInterval k \<and> GetTimeout k = GetInterval k
        \<and> GetRetryInterval k = GetTimeout k)"
  by (simp add: GetRetryInterval_def GetTimeout_def GetInterval_def)

text \<open>The theorem at a unit with an interval of 300 and a retry interval of 60, and at
  a unit with an interval of 300 and both optional fields unset.\<close>

theorem C2_interval_defaults_witness:
  "Interval (Spec unit_A) = \<lparr>Duration = 300\<rparr>
   \<and> RetryInterval (Spec unit_A) = Some \<lparr>Duration = 60\<rparr> \<and> Timeout (Spec unit_A) = None
   \<and> GetInterval unit_A = 300 \<and> GetRetryInterval unit_A = 60 \<and> GetTimeout unit_A = 300
   \<and> Interval (Spec unit_C) = \<lparr>Duration = 300\<rparr>
   \<and> RetryInterval (Spec unit_C) = None \<and> Timeout (Spec unit_C) = None
   \<and> GetInterval unit_C = 300 \<and> GetRetryInterval unit_C = 300 \<and> GetTimeout unit_C = 300"
proof -
  have a: "Interval (Spec unit_A) = \<lparr>Duration = 300\<rparr>"
    "RetryInterval (Spec unit_A) = Some \<lparr>Duration = 60\<rparr>" "Timeout (Spec unit_A) = None"
    by (simp_all add: unit_A_def spec_A_def)
  have c: "Interval (Spec unit_C) = \<lparr>Duration = 300\<rparr>"
    "RetryInterval (Spec unit_C) = None" "Timeout (Spec unit_C) = None"
    by (simp_all add: unit_C_def spec_A_def)
  from C2_interval_defaults [of unit_A] C2_interval_defaults [of unit_C] a c
  show ?thesis by simp
qed

text \<open>
  C5, as the code has it. \<^verbatim>\<open>GetDependsOn\<close> returns the namespaced name of the unit
  itself and, next to it, the \<^verbatim>\<open>dependsOn\<close> list as it is stored: every entry is
  returned unchanged, an entry with an empty namespace included.
\<close>

theorem C5_depends_on_unchanged:
  "fst (GetDependsOn k) = \<lparr>nn_Namespace = Namespace k, nn_Name = Name k\<rparr>
   \<and> snd (GetDependsOn k) = DependsOn (Spec k)
   \<and> length (snd (GetDependsOn k)) = length (DependsOn (Spec k))
   \<and> (\<forall>i. snd (GetDependsOn k) ! i = DependsOn (Spec k) ! i)"
  by (simp add: GetDependsOn_def)

text \<open>C5 as stated fails: the first dependency of the example unit has an empty
  namespace, and the reference \<^verbatim>\<open>GetDependsOn\<close> returns for it does not carry the
  namespace of the unit.\<close>

theorem C5_empty_namespace_counterexample:
  "dep_Namespace (DependsOn (Spec unit_A) ! 0) = ''''
   \<and> dep_Namespace (snd (GetDependsOn unit_A) ! 0) \<noteq> Namespace unit_A"
  by (simp add: GetDependsOn_def unit_A_def spec_A_def)



text \<open>
  C8. \<^verbatim>\<open>GetSourceRef\<close> returns nil exactly when \<^verbatim>\<open>sourceRef\<close> is unset; otherwise it
  returns the \<^verbatim>\<open>sourceRef\<close> with an empty namespace replaced by the namespace of the
  unit. A second call, on the unit as the first call left it, returns the same reference
  and leaves the unit as it found it.
\<close>

theorem C8_source_ref_idempotent:
  "(fst (GetSourceRef k) = None \<longleftrightarrow> SourceRef (Spec k) = None)
   \<and> (\<forall>r. SourceRef (Spec k) = Some r \<longrightarrow>
         fst (GetSourceRef k)
           = Some (if src_Namespace r = '''' then r\<lparr>src_Namespace := Namespace k\<rparr> else r))
   \<and> fst (GetSourceRef (snd (GetSourceRef k))) = fst (GetSourceRef k)
   \<and> snd (GetSourceRef (snd (GetSourceRef k))) = snd (GetSourceRef k)"
  by (auto simp: GetSourceRef_def GetNamespace_def Let_def split: option.splits)

theorem C8_source_ref_idempotent_witness:
  "SourceRef (Spec unit_A)
     = Some \<lparr>src_APIVersion = ''v1'', src_Kind = ''GitRepository'', src_Name = ''repo'',
             src_Namespace = ''''\<rparr>
   \<and> fst (GetSourceRef unit_A)
     = Some \<lparr>src_APIVersion = ''v1'', src_Kind = ''GitRepository'', src_Name = ''repo'',
             src_Namespace = ''apps''\<rparr>
   \<and> fst (GetSourceRef (snd (GetSourceRef unit_A))) = fst (GetSourceRef unit_A)
   \<and> snd (GetSourceRef (snd (GetSourceRef unit_A))) = snd (GetSourceRef unit_A)
   \<and> SourceRef (Spec unit_C) = None \<and> fst (GetSourceRef unit_C) = None"
proof -
  have a: "SourceRef (Spec unit_A)
     = Some \<lparr>src_APIVersion = ''v1'', src_Kind = ''GitRepository'', src_Name = ''repo'',
             src_Namespace = ''''\<rparr>" "Namespace unit_A = ''apps''"
    by (simp_all add: unit_A_def spec_A_def)
  have c: "SourceRef (Spec unit_C) = None"
    by (simp add: unit_C_def spec_A_def)
  from C8_source_ref_idempotent [of unit_A] C8_source_ref_idempotent [of unit_C] a c
  show ?thesis by simp
qed

section \<open>Properties of \<^verbatim>\<open>AppendToArgs\<close>\<close>

text \<open>The loops written as one concatenation.\<close>

lemma append_range_concat:
  "append_range flag es args = args @ concat (map (\<lambda>e. flag_value (flag, e)) es)"
  by (induction es arbitrary: args) (auto simp: flag_value_def)

lemma AppendToArgs_concat:
  "fst (AppendToArgs ord v args) = args @ concat (map flag_value (appended_entries ord v))"
  by (simp add: AppendToArgs_def Let_def append_range_concat appended_entries_def comp_def)

lemma range_entries_map:
  "set ks \<subseteq> dom m \<Longrightarrow> range_entries ks m = map (\<lambda>k. (k, the (m k))) ks"
  by (induction ks) (auto simp: range_entries_def List.map_filter_simps)

lemma go_range_entries:
  assumes "go_range m ks"
  shows "range_entries ks m = map (\<lambda>k. (k, the (m k))) ks"
    and "length (range_entries ks m) = card (dom m)"
    and "set (range_entries ks m) = {(k, x). m k = Some x}"
proof -
  from assms have d: "distinct ks" and s: "set ks = dom m"
    by (simp_all add: go_range_def)
  show e: "range_entries ks m = map (\<lambda>k. (k, the (m k))) ks"
    using s by (simp add: range_entries_map)
  show "length (range_entries ks m) = card (dom m)"
    using d s e by (simp add: distinct_card [symmetric])
  show "set (range_entries ks m) = {(k, x). m k = Some x}"
    using s e by (auto simp: image_iff)
qed

lemma length_appended_entries:
  "range_ok ord v \<Longrightarrow> length (appended_entries ord v) = total_entries v"
  by (simp add: range_ok_def appended_entries_def total_entries_def go_range_entries(2))

lemma set_appended_entries:
  "range_ok ord v \<Longrightarrow>
   set (appended_entries ord v) = {(f, k, x). \<exists>m. (f, m) \<in> set (flag_maps v) \<and> m k = Some x}"
  by (auto simp: range_ok_def appended_entries_def flag_maps_def go_range_entries(3))

lemma length_concat_flag_value: "length (concat (map flag_value L)) = 2 * length L"
  by (induction L) (auto simp: flag_value_def)

lemma nth_concat_flag_value:
  "i < length L \<Longrightarrow>
   concat (map flag_value L) ! (2 * i) = fst (L ! i)
   \<and> concat (map flag_value L) ! (2 * i + 1) = Sprintf_kv (fst (snd (L ! i))) (snd (snd (L ! i)))"
proof (induction L arbitrary: i)
  case Nil
  then show ?case by simp
next
  case (Cons e L)
  show ?case
  proof (cases i)
    case 0
    then show ?thesis by (simp add: flag_value_def split: prod.splits)
  next
    case (Suc j)
    with Cons.prems have "j < length L" by simp
    from Cons.IH [OF this] Suc show ?thesis
      by (simp add: flag_value_def split: prod.splits)
  qed
qed

lemma AppendToArgs_nth:
  assumes "i < length (appended_entries ord v)"
  shows "fst (AppendToArgs ord v args) ! (length args + 2 * i) = fst (appended_entries ord v ! i)"
    and "fst (AppendToArgs ord v args) ! (length args + 2 * i + 1)
           = fst (snd (appended_entries ord v ! i)) @ ''='' @ snd (snd (appended_entries ord v ! i))"
  using nth_concat_flag_value [OF assms]
  by (simp_all add: AppendToArgs_concat nth_append add.assoc Sprintf_kv_def)

lemma pairs_of_concat_flag_value:
  "pairs_of (concat (map flag_value L)) = map (\<lambda>(f, k, x). (f, Sprintf_kv k x)) L"
  by (induction L) (auto simp: flag_value_def)

text \<open>
  C9. Whatever order the four loops meet the entries in, the list \<^verbatim>\<open>AppendToArgs\<close>
  returns starts with the input arguments, unchanged; its length is the length of the
  input plus twice the number of entries of the four mappings; every appended pair is the
  flag of one of the mappings followed by \<^verbatim>\<open>key=value\<close> for an entry of that mapping,
  and every entry of every mapping has its pair; the mappings are as they were.
\<close>

theorem C9_append_to_args:
  assumes ok: "range_ok ord v"
  shows "take (length args) (fst (AppendToArgs ord v args)) = args
    \<and> length (fst (AppendToArgs ord v args)) = length args + 2 * total_entries v
    \<and> (\<forall>i < total_entries v. \<exists>f m k x.
           (f, m) \<in> set (flag_maps v) \<and> m k = Some x
           \<and> fst (AppendToArgs ord v args) ! (length args + 2 * i) = f
           \<and> fst (AppendToArgs ord v args) ! (length args + 2 * i + 1) = k @ ''='' @ x)
    \<and> (\<forall>(f, m) \<in> set (flag_maps v). \<forall>k x. m k = Some x \<longrightarrow>
           (\<exists>i < total_entries v.
              fst (AppendToArgs ord v args) ! (length args + 2 * i) = f
              \<and> fst (AppendToArgs ord v args) ! (length args + 2 * i + 1) = k @ ''='' @ x))
    \<and> snd (AppendToArgs ord v args) = v"
proof (intro conjI)
  let ?L = "appended_entries ord v"
  let ?res = "fst (AppendToArgs ord v args)"
  have len: "length ?L = total_entries v"
    using ok by (rule length_appended_entries)
  show "take (length args) ?res = args"
    by (simp add: AppendToArgs_concat)
  show "length ?res = length args + 2 * total_entries v"
    by (simp add: AppendToArgs_concat length_concat_flag_value len)
  show "\<forall>i < total_entries v. \<exists>f m k x.
           (f, m) \<in> set (flag_maps v) \<and> m k = Some x
           \<and> ?res ! (length args + 2 * i) = f
           \<and> ?res ! (length args + 2 * i + 1) = k @ ''='' @ x"
  proof (intro allI impI)
    fix i assume "i < total_entries v"
    then have il: "i < length ?L" by (simp add: len)
    then have "?L ! i \<in> set ?L" by simp
    then obtain f k x m where e: "?L ! i = (f, k, x)" and fm: "(f, m) \<in> set (flag_maps v)"
      and mk: "m k = Some x"
      using set_appended_entries [OF ok] by auto
    from AppendToArgs_nth [OF il, of args] e have "?res ! (length args + 2 * i) = f"
      and "?res ! (length args + 2 * i + 1) = k @ ''='' @ x"
      by simp_all
    with fm mk show "\<exists>f m k x. (f, m) \<in> set (flag_maps v) \<and> m k = Some x
           \<and> ?res ! (length args + 2 * i) = f
           \<and> ?res ! (length args + 2 * i + 1) = k @ ''='' @ x"
      by blast
  qed
  show "\<forall>(f, m) \<in> set (flag_maps v). \<forall>k x. m k = Some x \<longrightarrow>
           (\<exists>i < total_entries v.
              ?res ! (length args + 2 * i) = f
              \<and> ?res ! (length args + 2 * i + 1) = k @ ''='' @ x)"
  proof (clarify)
    fix f m k x assume fm: "(f, m) \<in> set (flag_maps v)" and mk: "m k = Some x"
    then have "(f, k, x) \<in> set ?L"
      using set_appended_entries [OF ok] by auto
    then obtain i where il: "i < length ?L" and e: "?L ! i = (f, k, x)"
      by (auto simp: in_set_conv_nth)
    from AppendToArgs_nth [OF il, of args] e have "?res ! (length args + 2 * i) = f"
      and "?res ! (length args + 2 * i + 1) = k @ ''='' @ x"
      by simp_all
    with il len show "\<exists>i < total_entries v.
              ?res ! (length args + 2 * i) = f
              \<and> ?res ! (length args + 2 * i + 1) = k @ ''='' @ x"
      by auto
  qed
  show "snd (AppendToArgs ord v args) = v"
    by (simp add: AppendToArgs_def Let_def)
qed

text \<open>The theorem at three entries in two mappings, appended to one argument.\<close>

theorem C9_append_to_args_witness:
  "range_ok order_ab vars_2
   \<and> total_entries vars_2 = 3
   \<and> take 1 (fst (AppendToArgs order_ab vars_2 [''show''])) = [''show'']
   \<and> length (fst (AppendToArgs order_ab vars_2 [''show''])) = 7
   \<and> snd (AppendToArgs order_ab vars_2 [''show'']) = vars_2
   \<and> fst (AppendToArgs order_ab vars_2 [''show''])
       = [''show'', ''--ext-str'', ''a=1'', ''--ext-str'', ''b=2'', ''--tla-str'', ''t=x'']"
proof -
  have ok: "range_ok order_ab vars_2"
    by (auto simp: range_ok_def go_range_def order_ab_def vars_2_def)
  have t: "total_entries vars_2 = 3"
    by (simp add: total_entries_def vars_2_def)
  have r: "fst (AppendToArgs order_ab vars_2 [''show''])
       = [''show'', ''--ext-str'', ''a=1'', ''--ext-str'', ''b=2'', ''--tla-str'', ''t=x'']"
    by (simp add: AppendToArgs_def order_ab_def vars_2_def range_entries_def
          List.map_filter_simps Sprintf_kv_def)
  from C9_append_to_args [OF ok, of "[''show'']"] ok t r show ?thesis by simp
qed

text \<open>Two orders of the same map give the same entries, counted with multiplicity, and
  the same flags in the same places.\<close>

lemma go_range_mset:
  assumes "go_range m ks" "go_range m ks'"
  shows "mset (range_entries ks m) = mset (range_entries ks' m)"
proof -
  from assms have "mset ks = mset ks'"
    by (metis go_range_def set_eq_iff_mset_eq_distinct)
  then have "mset (map (\<lambda>k. (k, the (m k))) ks) = mset (map (\<lambda>k. (k, the (m k))) ks')"
    by simp
  then show ?thesis
    using assms by (simp add: go_range_entries(1))
qed

lemma mset_appended_entries:
  "range_ok o1 v \<Longrightarrow> range_ok o2 v \<Longrightarrow>
   mset (appended_entries o1 v) = mset (appended_entries o2 v)"
  unfolding range_ok_def appended_entries_def mset_append mset_map
  by (metis go_range_mset)

lemma flags_appended_entries:
  "range_ok ord v \<Longrightarrow>
   map fst (appended_entries ord v) =
     replicate (card (dom (ExtStr v))) ''--ext-str''
     @ replicate (card (dom (ExtCode v))) ''--ext-code''
     @ replicate (card (dom (TLAStr v))) ''--tla-str''
     @ replicate (card (dom (TLACode v))) ''--tla-code''"
  by (simp add: range_ok_def appended_entries_def comp_def map_replicate_const
        go_range_entries(2))

lemma go_range_single:
  assumes "go_range m ks" "go_range m ks'" "card (dom m) \<le> 1"
  shows "ks = ks'"
proof -
  from assms have l: "length ks \<le> 1" "length ks' \<le> 1" and s: "set ks = set ks'"
    by (simp_all add: go_range_def distinct_card [symmetric])
  show ?thesis
  proof (cases ks)
    case Nil
    with s show ?thesis by simp
  next
    case (Cons a as)
    with l have ks: "ks = [a]" by simp
    with s l obtain b where "ks' = [b]" by (cases ks') auto
    with ks s show ?thesis by simp
  qed
qed

lemma pairs_of_drop:
  "pairs_of (drop (length args) (fst (AppendToArgs ord v args))) =
     map (\<lambda>(f, k, x). (f, Sprintf_kv k x)) (appended_entries ord v)"
  by (simp add: AppendToArgs_concat pairs_of_concat_flag_value)

lemma map_fst_tagged: "map fst (map (\<lambda>(f, k, x). (f, Sprintf_kv k x)) L) = map fst L"
  by (induction L) auto

lemma flags_of_drop:
  "range_ok ord v \<Longrightarrow>
   map fst (pairs_of (drop (length args) (fst (AppendToArgs ord v args)))) =
     replicate (card (dom (ExtStr v))) ''--ext-str''
     @ replicate (card (dom (ExtCode v))) ''--ext-code''
     @ replicate (card (dom (TLAStr v))) ''--tla-str''
     @ replicate (card (dom (TLACode v))) ''--tla-code''"
  unfolding pairs_of_drop map_fst_tagged by (rule flags_appended_entries)

text \<open>
  C10, as the code has it. Two calls with the same variables and the same input
  arguments return lists of the same length that agree on the input arguments, carry the
  same flags at the same places and the same pairs of flag and \<^verbatim>\<open>key=value\<close> counted
  with multiplicity: they can differ only in the order of the pairs of one mapping. When
  no mapping has more than one entry the two lists are identical.
\<close>

theorem C10_same_up_to_order:
  assumes "range_ok o1 v" and "range_ok o2 v"
  shows "length (fst (AppendToArgs o1 v args)) = length (fst (AppendToArgs o2 v args))
    \<and> take (length args) (fst (AppendToArgs o1 v args))
        = take (length args) (fst (AppendToArgs o2 v args))
    \<and> map fst (pairs_of (drop (length args) (fst (AppendToArgs o1 v args))))
        = map fst (pairs_of (drop (length args) (fst (AppendToArgs o2 v args))))
    \<and> mset (pairs_of (drop (length args) (fst (AppendToArgs o1 v args))))
        = mset (pairs_of (drop (length args) (fst (AppendToArgs o2 v args))))
    \<and> ((\<forall>(f, m) \<in> set (flag_maps v). card (dom m) \<le> 1) \<longrightarrow>
          fst (AppendToArgs o1 v args) = fst (AppendToArgs o2 v args))"
proof (intro conjI impI)
  show "length (fst (AppendToArgs o1 v args)) = length (fst (AppendToArgs o2 v args))"
    using assms
    by (simp add: AppendToArgs_concat length_concat_flag_value length_appended_entries)
  show "take (length args) (fst (AppendToArgs o1 v args))
          = take (length args) (fst (AppendToArgs o2 v args))"
    by (simp add: AppendToArgs_concat)
  show "map fst (pairs_of (drop (length args) (fst (AppendToArgs o1 v args))))
        = map fst (pairs_of (drop (length args) (fst (AppendToArgs o2 v args))))"
    by (simp only: flags_of_drop [OF assms(1)] flags_of_drop [OF assms(2)])
  show "mset (pairs_of (drop (length args) (fst (AppendToArgs o1 v args))))
        = mset (pairs_of (drop (length args) (fst (AppendToArgs o2 v args))))"
    by (simp add: pairs_of_drop mset_appended_entries [OF assms])
next
  assume "\<forall>(f, m) \<in> set (flag_maps v). card (dom m) \<le> 1"
  then have c: "card (dom (ExtStr v)) \<le> 1" "card (dom (ExtCode v)) \<le> 1"
    "card (dom (TLAStr v)) \<le> 1" "card (dom (TLACode v)) \<le> 1"
    by (simp_all add: flag_maps_def)
  from assms c have "ord_ExtStr o1 = ord_ExtStr o2" "ord_ExtCode o1 = ord_ExtCode o2"
    "ord_TLAStr o1 = ord_TLAStr o2" "ord_TLACode o1 = ord_TLACode o2"
    unfolding range_ok_def by (blast intro: go_range_single)+
  then show "fst (AppendToArgs o1 v args) = fst (AppendToArgs o2 v args)"
    by (simp add: AppendToArgs_def Let_def)
qed

text \<open>The theorem at two orders of a mapping with two entries, and at mappings with
  one entry each.\<close>

theorem C10_same_up_to_order_witness:
  "range_ok order_ab vars_2 \<and> range_ok order_ba vars_2
   \<and> length (fst (AppendToArgs order_ab vars_2 [])) = length (fst (AppendToArgs order_ba vars_2 []))
   \<and> mset (pairs_of (drop (length ([] :: string list)) (fst (AppendToArgs order_ab vars_2 []))))
       = mset (pairs_of (drop (length ([] :: string list)) (fst (AppendToArgs order_ba vars_2 []))))
   \<and> range_ok order_1 vars_1
   \<and> card (dom (ExtStr vars_1)) = 1 \<and> card (dom (ExtCode vars_1)) = 0
   \<and> card (dom (TLAStr vars_1)) = 1 \<and> card (dom (TLACode vars_1)) = 0
   \<and> fst (AppendToArgs order_1 vars_1 []) = [''--ext-str'', ''a=1'', ''--tla-str'', ''t=x'']"
proof -
  have ab: "range_ok order_ab vars_2" and ba: "range_ok order_ba vars_2"
    by (auto simp: range_ok_def go_range_def order_ab_def order_ba_def vars_2_def)
  have o1: "range_ok order_1 vars_1"
    by (auto simp: range_ok_def go_range_def order_1_def vars_1_def)
  have c1: "\<forall>(f, m) \<in> set (flag_maps vars_1). card (dom m) \<le> 1"
    by (simp add: flag_maps_def vars_1_def)
  have r: "fst (AppendToArgs order_1 vars_1 []) = [''--ext-str'', ''a=1'', ''--tla-str'', ''t=x'']"
    by (simp add: AppendToArgs_def order_1_def vars_1_def range_entries_def
          List.map_filter_simps Sprintf_kv_def)
  have c: "card (dom (ExtStr vars_1)) = 1" "card (dom (ExtCode vars_1)) = 0"
    "card (dom (TLAStr vars_1)) = 1" "card (dom (TLACode vars_1)) = 0"
    by (simp_all add: vars_1_def)
  from C10_same_up_to_order [OF ab ba, of "[]"] C10_same_up_to_order [OF o1 o1, of "[]"]
    ab ba o1 c1 c r
  show ?thesis by simp
qed

text \<open>C10 as stated fails: the same variables and the same (empty) input arguments,
  ranged over in two orders, give two different lists.\<close>

theorem C10_order_counterexample:
  "range_ok order_ab vars_2 \<and> range_ok order_ba vars_2
   \<and> fst (AppendToArgs order_ab vars_2 []) \<noteq> fst (AppendToArgs order_ba vars_2 [])"
  by (auto simp: range_ok_def go_range_def AppendToArgs_def order_ab_def order_ba_def
        vars_2_def range_entries_def List.map_filter_simps Sprintf_kv_def)

section \<open>Properties of the dependency gate\<close>

text \<open>A node met again on its own path makes the walk answer \<open>Cycle\<close>, at whatever depth
  it is met.\<close>

lemma revisit_gives_Cycle:
  "visits units path n path' n' \<Longrightarrow> n' \<in> set path' \<Longrightarrow> walk units path n = Cycle"
  "visits_deps units path ds path' n' \<Longrightarrow> n' \<in> set path' \<Longrightarrow> walk_deps units path ds = Cycle"
proof (induction rule: visits_visits_deps.inducts)
  case (here units path n)
  then show ?case by (simp add: walk.simps)
next
  case (below n path units k path' n')
  then show ?case by (simp add: walk.simps [of units path n])
next
  case (first units path d path' n' ds)
  then show ?case by simp
next
  case (later units path d ds path' n')
  then show ?case by simp
qed

text \<open>The answer \<open>Cycle\<close> has no other source.\<close>

lemma Cycle_gives_revisit:
  "walk units path n = Cycle \<Longrightarrow> \<exists>path' n'. visits units path n path' n' \<and> n' \<in> set path'"
  "walk_deps units path ds = Cycle \<Longrightarrow>
     \<exists>path' n'. visits_deps units path ds path' n' \<and> n' \<in> set path'"
proof (induction units path n and units path ds rule: walk_walk_deps.induct)
  case (1 units path n)
  show ?case
  proof (cases "n \<in> set path")
    case True
    then show ?thesis by (blast intro: here)
  next
    case False
    with "1.prems" obtain k where k: "lookup_unit units n = Some k"
      and c: "walk_deps units (n # path) (dependencies k) = Cycle"
      by (auto simp: walk.simps [of units path n]
            split: option.splits GateResult.splits if_splits)
    from "1.IH" [OF False k c] False k show ?thesis
      by (blast intro: below)
  qed
next
  case (2 units path)
  then show ?case by simp
next
  case (3 units path d ds)
  from "3.prems" consider "walk units path d = Cycle"
    | "walk units path d = Ready" "walk_deps units path ds = Cycle"
    by (auto split: GateResult.splits)
  then show ?case
  proof cases
    case 1
    from "3.IH"(1) [OF 1] show ?thesis by (blast intro: first)
  next
    case 2
    from "3.IH"(2) [OF 2] 2(1) show ?thesis by (blast intro: later)
  qed
qed

text \<open>The path of every visit is free of repetitions and made of the starting path and
  of units the cluster holds.\<close>

lemma visits_path:
  "visits units path n path' n' \<Longrightarrow> distinct path \<Longrightarrow>
     distinct path' \<and> set path' \<subseteq> set path \<union> unit_key ` set units"
  "visits_deps units path ds path' n' \<Longrightarrow> distinct path \<Longrightarrow>
     distinct path' \<and> set path' \<subseteq> set path \<union> unit_key ` set units"
proof (induction rule: visits_visits_deps.inducts)
  case (below n path units k path' n')
  from below(2) have "n \<in> unit_key ` set units"
    by (auto simp: lookup_unit_def find_Some_iff)
  with below show ?case by auto
qed auto

text \<open>
  C6. \<open>isReady\<close> is a total function: the walk is defined by well-founded recursion,
  each descent adding to the path a unit of the cluster that is not yet on it, so it
  returns on every graph, cyclic or not. It returns \<open>Cycle\<close> exactly when the walk meets a
  node that is already on the current path. Whatever the size of the graph, the path of
  every visit is free of repetitions and no longer than the number of units plus one.
\<close>

theorem C6_cycle_detection:
  "(isReady units k = Cycle \<longleftrightarrow>
      (\<exists>path n. visits_deps units [unit_key k] (dependencies k) path n \<and> n \<in> set path))
   \<and> (\<forall>path n. visits_deps units [unit_key k] (dependencies k) path n \<longrightarrow>
         distinct path \<and> length path \<le> Suc (length units))"
proof (intro conjI allI impI)
  show "isReady units k = Cycle \<longleftrightarrow>
      (\<exists>path n. visits_deps units [unit_key k] (dependencies k) path n \<and> n \<in> set path)"
    unfolding isReady_def
    by (blast intro: revisit_gives_Cycle(2) dest: Cycle_gives_revisit(2))
next
  fix path n
  assume v: "visits_deps units [unit_key k] (dependencies k) path n"
  from visits_path(2) [OF v] have d: "distinct path"
    and s: "set path \<subseteq> set [unit_key k] \<union> unit_key ` set units"
    by simp_all
  show "distinct path" by (rule d)
  have "length path = card (set path)" using d by (simp add: distinct_card)
  also have "\<dots> \<le> card (set [unit_key k] \<union> unit_key ` set units)"
    using s by (intro card_mono) auto
  also have "\<dots> \<le> card (set [unit_key k]) + card (unit_key ` set units)"
    by (rule card_Un_le)
  also have "\<dots> \<le> Suc (length units)"
    using card_image_le [of "set units" unit_key] card_length [of units] by simp
  finally show "length path \<le> Suc (length units)" .
qed

text \<open>The theorem on the graph where A depends on B and B depends on A: the walk from
  A descends into B and meets A again on the path.\<close>

theorem C6_cycle_detection_witness:
  "visits_deps [unit_A, unit_B] [unit_key unit_A] (dependencies unit_A) [key_B, key_A] key_A
   \<and> key_A \<in> set [key_B, key_A]
   \<and> isReady [unit_A, unit_B] unit_A = Cycle
   \<and> distinct [key_B, key_A]
   \<and> length [key_B, key_A] \<le> Suc (length [unit_A, unit_B])"
proof -
  have ka: "unit_key unit_A = key_A" and da: "dependencies unit_A = [key_B]"
    and db: "dependencies unit_B = [key_A]"
    and lb: "lookup_unit [unit_A, unit_B] key_B = Some unit_B"
    and ne: "key_B \<notin> set [key_A]"
    by (simp_all add: unit_key_def dependencies_def GetDependsOn_def resolve_dep_def
          lookup_unit_def unit_A_def unit_B_def spec_A_def key_A_def key_B_def)
  have "visits [unit_A, unit_B] [key_B, key_A] key_A [key_B, key_A] key_A"
    by (rule here)
  then have "visits_deps [unit_A, unit_B] [key_B, key_A] (dependencies unit_B) [key_B, key_A] key_A"
    unfolding db by (rule first)
  with ne lb have "visits [unit_A, unit_B] [key_A] key_B [key_B, key_A] key_A"
    by (rule below)
  then have v: "visits_deps [unit_A, unit_B] [unit_key unit_A] (dependencies unit_A)
      [key_B, key_A] key_A"
    unfolding ka da by (rule first)
  have m: "key_A \<in> set [key_B, key_A]" by simp
  from C6_cycle_detection [of "[unit_A, unit_B]" unit_A] v m
  have "isReady [unit_A, unit_B] unit_A = Cycle"
    and "distinct [key_B, key_A] \<and> length [key_B, key_A] \<le> Suc (length [unit_A, unit_B])"
    by blast+
  with v m show ?thesis by simp
qed

section \<open>Properties of the reconcile scheduler\<close>

text \<open>Apply reports no failure exactly when every operation was answered \<open>Done\<close> and all
  of them started before the deadline.\<close>

lemma apply_ops_no_failures:
  "no_failures (apply_ops client b ops r) \<longleftrightarrow>
     no_failures r \<and> (\<forall>op \<in> set ops. client op = Done) \<and> length ops \<le> b"
  by (induction client b ops r rule: apply_ops.induct)
     (auto simp: no_failures_def split: ClientOutcome.splits)

lemma run_stop: "phase s = Idle \<or> phase s = Suspended \<Longrightarrow> run env s = s"
  by (simp add: run.simps)

lemma run_go: "phase s \<noteq> Idle \<Longrightarrow> phase s \<noteq> Suspended \<Longrightarrow> run env s = run env (step env s)"
  by (simp add: run.simps)

lemma set_ready_frame:
  "SnapshotRef (Status (set_ready env st reason msg k)) = SnapshotRef (Status k)"
  "Spec (set_ready env st reason msg k) = Spec k"
  by (simp_all add: set_ready_def)

lemma run_Committing:
  "phase s = Committing \<Longrightarrow> run env s = committing env s"
  by (simp add: run_go step_def)
     (simp add: run_stop committing_def Let_def split: bool.splits option.splits)

lemma run_Pruning:
  "phase s = Pruning \<Longrightarrow> run env s = committing env (pruning env s)"
  by (simp add: run_go step_def) (simp add: run_Committing pruning_def Let_def)

lemma run_Applying:
  "phase s = Applying \<Longrightarrow>
   run env s =
     (if no_failures (apply_ops (env_client env) (env_budget env) (att_ops (att s)) no_result)
      then committing env (pruning env (applying env s))
      else committing env (applying env s))"
  by (simp add: run_go step_def) (simp add: run_Committing run_Pruning applying_def Let_def)

lemma committing_snapshot:
  "SnapshotRef (Status (sch_unit (committing env s))) =
     (case (committed (att s), att_revision (att s), att_manifests (att s)) of
        (True, Some revision, Some m) \<Rightarrow> Some (env_snapshot_of env m)
      | _ \<Rightarrow> SnapshotRef (Status (sch_unit s)))"
  by (simp add: committing_def Let_def set_ready_frame split: bool.splits option.splits)

lemma committing_frame:
  "att (committing env s) = att s" "phase (committing env s) = Idle"
  "Spec (sch_unit (committing env s)) = Spec (sch_unit s)"
  by (simp_all add: committing_def Let_def set_ready_frame split: bool.splits option.splits)


lemma run_Gating: "phase s = Gating \<Longrightarrow> run env s = run env (gating env s)"
  by (simp add: run_go step_def)

lemma run_Rendering: "phase s = Rendering \<Longrightarrow> run env s = run env (rendering env s)"
  by (simp add: run_go step_def)

lemma run_Diffing: "phase s = Diffing \<Longrightarrow> run env s = run env (diffing env s)"
  by (simp add: run_go step_def)

text \<open>
  C3. One attempt always comes to its end. When the snapshot after the attempt differs
  from the snapshot before it, the unit was not suspended, the gate answered \<open>Ready\<close>, the
  source resolved and rendered, Apply and Prune both reported no failed and no aborted
  operation, every operation of the diff and every deletion of a stale entry was answered
  \<open>Done\<close> by the cluster, all of them started before the deadline, and the new snapshot
  is the snapshot of the whole rendered manifest set. So on every failure path (a gate
  that is not ready, a fetch or render error, a failed operation, a failed deletion, a
  timeout) the snapshot after the attempt is the snapshot before it, and no snapshot is
  written from a partial apply.
\<close>

theorem C3_snapshot_only_on_success:
  "(phase (reconcile env k) = Idle \<or> phase (reconcile env k) = Suspended)
   \<and> (SnapshotRef (Status (sch_unit (reconcile env k))) \<noteq> SnapshotRef (Status k) \<longrightarrow>
        \<not> IsSuspended k \<and> isReady (env_units env) k = Ready
        \<and> (\<exists>revision m ra rp.
              env_resolve env = Inr revision \<and> env_render env revision = Inr m
              \<and> att_apply (att (reconcile env k)) = Some ra \<and> no_failures ra
              \<and> att_prune (att (reconcile env k)) = Some rp \<and> no_failures rp
              \<and> (\<forall>op \<in> set (env_diff env (GetDiffStrategy k) m). env_client env op = Done)
              \<and> (GCEnabled k \<longrightarrow>
                   (\<forall>ob \<in> set (env_stale env (SnapshotRef (Status k)) m).
                      env_client env (Delete, ob) = Done))
              \<and> length (env_diff env (GetDiffStrategy k) m)
                  + (if GCEnabled k then length (env_stale env (SnapshotRef (Status k)) m) else 0)
                  \<le> env_budget env
              \<and> SnapshotRef (Status (sch_unit (reconcile env k))) = Some (env_snapshot_of env m)))"
proof (cases "IsSuspended k")
  case True
  then have "reconcile env k = (start k)\<lparr>phase := Suspended, requeue := Some (GetInterval k)\<rparr>"
    by (simp add: reconcile_def step_def run_stop start_def)
  then show ?thesis by (simp add: start_def)
next
  case ns: False
  define s1 where "s1 = (start k)\<lparr>phase := Gating\<rparr>"
  have r1: "reconcile env k = run env (gating env s1)"
    using ns by (simp add: reconcile_def step_def start_def s1_def run_Gating)
  show ?thesis
  proof (cases "isReady (env_units env) k = Ready")
    case False
    then have "phase (gating env s1) = Idle"
      and "SnapshotRef (Status (sch_unit (gating env s1))) = SnapshotRef (Status k)"
      by (auto simp: gating_def s1_def start_def set_ready_frame split: GateResult.splits)
    then show ?thesis by (simp add: r1 run_stop)
  next
    case gate: True
    define s2 where "s2 = s1\<lparr>phase := Rendering\<rparr>"
    have r2: "reconcile env k = run env (rendering env s2)"
      using gate by (simp add: r1 gating_def s1_def s2_def start_def run_Rendering)
    have s2: "sch_unit s2 = k" "att s2 = new_attempt"
      by (simp_all add: s2_def s1_def start_def)
    show ?thesis
    proof (cases "env_resolve env")
      case (Inl e)
      then have "rendering env s2 =
          s2\<lparr>phase := Committing,
             att := (att s2)\<lparr>att_result := Some TransientFailure, att_reason := ''RenderFailed''\<rparr>\<rparr>"
        by (simp add: rendering_def)
      then show ?thesis
        by (simp add: r2 run_Committing committing_snapshot committing_frame committed_def
              s2 new_attempt_def)
    next
      case res: (Inr revision)
      show ?thesis
      proof (cases "shouldRender env k revision")
        case False
        then have "rendering env s2 = s2\<lparr>phase := Idle, requeue := Some (GetInterval k)\<rparr>"
          using res by (simp add: rendering_def s2)
        then show ?thesis by (simp add: r2 run_stop s2)
      next
        case sr: True
        show ?thesis
        proof (cases "env_render env revision")
          case (Inl e)
          then have "rendering env s2 =
              s2\<lparr>phase := Committing,
                 att := (att s2)\<lparr>att_revision := Some revision, att_result := Some FatalFailure,
                                  att_reason := ''RenderFailed''\<rparr>\<rparr>"
            using res sr by (simp add: rendering_def s2)
          then show ?thesis
            by (simp add: r2 run_Committing committing_snapshot committing_frame committed_def
                  s2 new_attempt_def)
        next
          case ren: (Inr m)
          define ops where "ops = env_diff env (GetDiffStrategy k) m"
          define s4 where "s4 = s2\<lparr>phase := Applying,
              att := new_attempt\<lparr>att_revision := Some revision, att_manifests := Some m,
                                  att_ops := ops\<rparr>\<rparr>"
          have "rendering env s2 =
              s2\<lparr>phase := Diffing,
                 att := new_attempt\<lparr>att_revision := Some revision, att_manifests := Some m\<rparr>\<rparr>"
            using res sr ren by (simp add: rendering_def s2)
          then have r4: "reconcile env k = run env s4"
            by (simp add: r2 run_Diffing diffing_def s4_def ops_def s2)
          have s4: "phase s4 = Applying" "sch_unit s4 = k"
            "att s4 = new_attempt\<lparr>att_revision := Some revision, att_manifests := Some m,
                                   att_ops := ops\<rparr>"
            by (simp_all add: s4_def s2)
          define ra where "ra = apply_ops (env_client env) (env_budget env) ops no_result"
          show ?thesis
          proof (cases "no_failures ra")
            case False
            then have "reconcile env k = committing env (applying env s4)"
              by (simp add: r4 run_Applying s4 ra_def new_attempt_def)
            moreover have "\<not> committed (att (applying env s4))"
              by (simp add: applying_def Let_def committed_def s4 new_attempt_def)
            moreover have "sch_unit (applying env s4) = k"
              by (simp add: applying_def Let_def s4)
            ultimately show ?thesis
              by (simp add: committing_snapshot committing_frame)
          next
            case aok: True
            define s5 where "s5 = applying env s4"
            define stale where "stale = (if GCEnabled k then env_stale env (SnapshotRef (Status k)) m else [])"
            define rp where "rp = apply_ops (env_client env) (env_budget env - length ops)
                (map (Pair Delete) stale) no_result"
            from aok have r5: "reconcile env k = committing env (pruning env s5)"
              by (simp add: r4 run_Applying s4 ra_def new_attempt_def s5_def)
            have s5: "sch_unit s5 = k" "att_ops (att s5) = ops" "att_manifests (att s5) = Some m"
              "att_revision (att s5) = Some revision" "att_apply (att s5) = Some ra"
              by (simp_all add: s5_def applying_def Let_def s4 new_attempt_def ra_def)
            have st: "stale_set env s5 = stale"
              by (simp add: stale_set_def s5 stale_def)
            have s6: "sch_unit (pruning env s5) = k"
              "att_manifests (att (pruning env s5)) = Some m"
              "att_revision (att (pruning env s5)) = Some revision"
              "att_apply (att (pruning env s5)) = Some ra"
              "att_prune (att (pruning env s5)) = Some rp"
              by (simp_all add: pruning_def Let_def s5 st rp_def)
            show ?thesis
            proof (cases "no_failures rp")
              case False
              then have "\<not> committed (att (pruning env s5))"
                by (simp add: committed_def s6)
              then show ?thesis
                by (simp add: r5 committing_snapshot committing_frame s6)
            next
              case pok: True
              from aok have a: "\<forall>op \<in> set ops. env_client env op = Done"
                and la: "length ops \<le> env_budget env"
                by (simp_all add: ra_def apply_ops_no_failures)
              from pok have p: "\<forall>ob \<in> set stale. env_client env (Delete, ob) = Done"
                and lp: "length stale \<le> env_budget env - length ops"
                by (simp_all add: rp_def apply_ops_no_failures)
              from la lp have b: "length ops + length stale \<le> env_budget env"
                by simp
              have "committed (att (pruning env s5))"
                using aok pok by (simp add: committed_def s6)
              then have "SnapshotRef (Status (sch_unit (reconcile env k))) = Some (env_snapshot_of env m)"
                by (simp add: r5 committing_snapshot s6)
              moreover have "att_apply (att (reconcile env k)) = Some ra"
                "att_prune (att (reconcile env k)) = Some rp" "phase (reconcile env k) = Idle"
                by (simp_all add: r5 committing_frame s6)
              ultimately show ?thesis
                using ns gate res ren aok pok a p b by (auto simp: ops_def stale_def)
            qed
          qed
        qed
      qed
    qed
  qed
qed

text \<open>The theorem at an attempt where everything succeeds: the unit has no snapshot
  before and the snapshot of the rendered manifests after.\<close>

theorem C3_snapshot_only_on_success_witness:
  "SnapshotRef (Status unit_C) = None
   \<and> SnapshotRef (Status (sch_unit (reconcile env_ok unit_C)))
       = Some \<lparr>Checksum = ''c1'', Entries = []\<rparr>
   \<and> \<not> IsSuspended unit_C
   \<and> isReady (env_units env_ok) unit_C = Ready
   \<and> phase (reconcile env_ok unit_C) = Idle"
proof -
  have b: "SnapshotRef (Status unit_C) = None"
    by (simp add: unit_C_def status_0_def)
  have r: "isReady (env_units env_ok) unit_C = Ready"
    by (simp add: isReady_def dependencies_def GetDependsOn_def unit_C_def spec_A_def)
  have u: "\<not> IsSuspended unit_C" "shouldRender env_ok unit_C ''main/1''"
    "GetDiffStrategy unit_C = ''subset''" "GCEnabled unit_C"
    by (simp_all add: IsSuspended_def shouldRender_def GetDiffStrategy_def GCEnabled_def
          unit_C_def spec_A_def status_0_def)
  have e: "env_resolve env_ok = Inr ''main/1''" "env_render env_ok ''main/1'' = Inr manifests_1"
    "env_diff env_ok ''subset'' manifests_1 = map (Pair Create) (man_Objects manifests_1)"
    "env_client env_ok = (\<lambda>op. Done)" "env_budget env_ok = 5"
    "env_stale env_ok (SnapshotRef (Status unit_C)) manifests_1 = []"
    "env_snapshot_of env_ok manifests_1 = \<lparr>Checksum = ''c1'', Entries = []\<rparr>"
    by (simp_all add: env_ok_def manifests_1_def)
  have n: "no_failures no_result" "length (man_Objects manifests_1) = 1"
    by (simp_all add: no_failures_def no_result_def manifests_1_def)
  have a: "SnapshotRef (Status (sch_unit (reconcile env_ok unit_C)))
       = Some \<lparr>Checksum = ''c1'', Entries = []\<rparr>"
    by (simp add: reconcile_def start_def step_def r u e n run_Gating run_Rendering run_Diffing
          run_Applying gating_def rendering_def diffing_def applying_def pruning_def
          stale_set_def committing_snapshot committed_def apply_ops_no_failures
          new_attempt_def Let_def)
  from C3_snapshot_only_on_success [of env_ok unit_C] a b
  have "phase (reconcile env_ok unit_C) = Idle \<or> phase (reconcile env_ok unit_C) = Suspended"
    by blast
  moreover have "phase (reconcile env_ok unit_C) \<noteq> Suspended"
    by (simp add: reconcile_def start_def step_def r u e n run_Gating run_Rendering run_Diffing
          run_Applying gating_def rendering_def diffing_def applying_def pruning_def
          committing_frame apply_ops_no_failures new_attempt_def Let_def)
  ultimately show ?thesis using a b r u by simp
qed

section \<open>What the controller leaves untouched\<close>

text \<open>No transition of the scheduler writes to the spec or to the identity of the
  unit, so neither does a run of transitions or a whole attempt.\<close>

lemma step_frame:
  "Spec (sch_unit (step env s)) = Spec (sch_unit s)
   \<and> Namespace (sch_unit (step env s)) = Namespace (sch_unit s)
   \<and> Name (sch_unit (step env s)) = Name (sch_unit s)
   \<and> Generation (sch_unit (step env s)) = Generation (sch_unit s)"
  by (cases "phase s")
     (auto simp: step_def gating_def rendering_def diffing_def applying_def pruning_def
        committing_def set_ready_def Let_def
        split: GateResult.splits sum.splits option.splits bool.splits)

lemma run_frame:
  "Spec (sch_unit (run env s)) = Spec (sch_unit s)
   \<and> Namespace (sch_unit (run env s)) = Namespace (sch_unit s)
   \<and> Name (sch_unit (run env s)) = Name (sch_unit s)
   \<and> Generation (sch_unit (run env s)) = Generation (sch_unit s)"
proof (induction env s rule: run.induct)
  case (1 env s)
  show ?case
  proof (cases "phase s = Idle \<or> phase s = Suspended")
    case True
    then show ?thesis by (simp add: run.simps)
  next
    case False
    then have "run env s = run env (step env s)" by (simp add: run.simps)
    with 1 [OF False] step_frame [of env s] show ?thesis by simp
  qed
qed

lemma reconcile_frame:
  "Spec (sch_unit (reconcile env k)) = Spec k
   \<and> Namespace (sch_unit (reconcile env k)) = Namespace k
   \<and> Name (sch_unit (reconcile env k)) = Name k
   \<and> Generation (sch_unit (reconcile env k)) = Generation k"
  using run_frame [of env "step env (start k)"] step_frame [of env "start k"]
  by (simp add: reconcile_def start_def)

text \<open>
  C4, as the code has it. Every transition of the reconcile scheduler, and so every
  attempt, leaves the spec and the identity of the unit as they were: the unit after an
  attempt is the unit before it with another status, and nothing but the status is
  written. Every accessor other than \<^verbatim>\<open>GetSourceRef\<close> leaves the unit as it was.
  \<^verbatim>\<open>GetSourceRef\<close> leaves the status, the namespace, the name and every field of the
  spec other than \<^verbatim>\<open>sourceRef\<close> as they were; it changes nothing when \<^verbatim>\<open>sourceRef\<close>
  is unset or carries a namespace, and otherwise writes the namespace of the unit into
  \<^verbatim>\<open>sourceRef.namespace\<close>.
\<close>

theorem C4_accessor_frame:
  "(a \<noteq> CallGetSourceRef \<longrightarrow> unit_after a k = k)
   \<and> Status (unit_after a k) = Status k
   \<and> Namespace (unit_after a k) = Namespace k
   \<and> Name (unit_after a k) = Name k
   \<and> Generation (unit_after a k) = Generation k
   \<and> Spec (unit_after a k) = (Spec k)\<lparr>SourceRef := SourceRef (Spec (unit_after a k))\<rparr>
   \<and> (SourceRef (Spec k) = None \<longrightarrow> unit_after a k = k)
   \<and> (\<forall>r. SourceRef (Spec k) = Some r \<and> src_Namespace r \<noteq> '''' \<longrightarrow> unit_after a k = k)
   \<and> (\<forall>r. SourceRef (Spec k) = Some r \<and> src_Namespace r = '''' \<longrightarrow>
         SourceRef (Spec (unit_after CallGetSourceRef k))
           = Some (r\<lparr>src_Namespace := Namespace k\<rparr>))
   \<and> Spec (sch_unit (step env s)) = Spec (sch_unit s)
   \<and> Namespace (sch_unit (step env s)) = Namespace (sch_unit s)
   \<and> Name (sch_unit (step env s)) = Name (sch_unit s)
   \<and> Generation (sch_unit (step env s)) = Generation (sch_unit s)
   \<and> Spec (sch_unit (run env s)) = Spec (sch_unit s)
   \<and> Spec (sch_unit (reconcile env k)) = Spec k
   \<and> SourceRef (Spec (sch_unit (reconcile env k))) = SourceRef (Spec k)
   \<and> sch_unit (reconcile env k) = k\<lparr>Status := Status (sch_unit (reconcile env k))\<rparr>"
proof -
  have acc: "(a \<noteq> CallGetSourceRef \<longrightarrow> unit_after a k = k)
   \<and> Status (unit_after a k) = Status k
   \<and> Namespace (unit_after a k) = Namespace k
   \<and> Name (unit_after a k) = Name k
   \<and> Generation (unit_after a k) = Generation k
   \<and> Spec (unit_after a k) = (Spec k)\<lparr>SourceRef := SourceRef (Spec (unit_after a k))\<rparr>
   \<and> (SourceRef (Spec k) = None \<longrightarrow> unit_after a k = k)
   \<and> (\<forall>r. SourceRef (Spec k) = Some r \<and> src_Namespace r \<noteq> '''' \<longrightarrow> unit_after a k = k)
   \<and> (\<forall>r. SourceRef (Spec k) = Some r \<and> src_Namespace r = '''' \<longrightarrow>
         SourceRef (Spec (unit_after CallGetSourceRef k))
           = Some (r\<lparr>src_Namespace := Namespace k\<rparr>))"
    by (cases a) (auto simp: GetSourceRef_def GetNamespace_def Let_def split: option.splits)
  have only_status: "sch_unit (reconcile env k) = k\<lparr>Status := Status (sch_unit (reconcile env k))\<rparr>"
    using reconcile_frame [of env k] by (intro Konfiguration.equality) simp_all
  from acc step_frame [of env s] run_frame [of env s] reconcile_frame [of env k] only_status
  show ?thesis by simp
qed

text \<open>The theorem at a unit whose \<^verbatim>\<open>sourceRef\<close> has an empty namespace, at a unit
  without \<^verbatim>\<open>sourceRef\<close>, and at an attempt that succeeds and writes a snapshot.\<close>

theorem C4_accessor_frame_witness:
  "SourceRef (Spec unit_A)
     = Some \<lparr>src_APIVersion = ''v1'', src_Kind = ''GitRepository'', src_Name = ''repo'',
             src_Namespace = ''''\<rparr>
   \<and> SourceRef (Spec (unit_after CallGetSourceRef unit_A))
     = Some \<lparr>src_APIVersion = ''v1'', src_Kind = ''GitRepository'', src_Name = ''repo'',
             src_Namespace = ''apps''\<rparr>
   \<and> Status (unit_after CallGetSourceRef unit_A) = Status unit_A
   \<and> unit_after CallGetPath unit_A = unit_A
   \<and> SourceRef (Spec unit_C) = None \<and> unit_after CallGetSourceRef unit_C = unit_C
   \<and> Spec (sch_unit (reconcile env_ok unit_C)) = Spec unit_C
   \<and> Namespace (sch_unit (reconcile env_ok unit_C)) = ''apps''
   \<and> Name (sch_unit (reconcile env_ok unit_C)) = ''C''"
proof -
  have a: "SourceRef (Spec unit_A)
     = Some \<lparr>src_APIVersion = ''v1'', src_Kind = ''GitRepository'', src_Name = ''repo'',
             src_Namespace = ''''\<rparr>" "Namespace unit_A = ''apps''"
    by (simp_all add: unit_A_def spec_A_def)
  have c: "SourceRef (Spec unit_C) = None" "Namespace unit_C = ''apps''" "Name unit_C = ''C''"
    by (simp_all add: unit_C_def spec_A_def)
  have r: "Spec (sch_unit (reconcile env_ok unit_C)) = Spec unit_C"
    and i: "sch_unit (reconcile env_ok unit_C)
              = unit_C\<lparr>Status := Status (sch_unit (reconcile env_ok unit_C))\<rparr>"
    using C4_accessor_frame [where k = unit_C and env = env_ok] by blast+
  have "Namespace (sch_unit (reconcile env_ok unit_C)) = ''apps''"
    and "Name (sch_unit (reconcile env_ok unit_C)) = ''C''"
    by (subst i, simp add: c)+
  with r C4_accessor_frame [where a = CallGetSourceRef and k = unit_A]
    C4_accessor_frame [where a = CallGetPath and k = unit_A]
    C4_accessor_frame [where a = CallGetSourceRef and k = unit_C] a c
  show ?thesis by simp
qed

text \<open>C4 as stated fails: on a unit whose \<^verbatim>\<open>sourceRef\<close> has an empty namespace, the
  spec after \<^verbatim>\<open>GetSourceRef\<close> differs from the spec before it.\<close>

theorem C4_spec_changed_counterexample:
  "Spec (unit_after CallGetSourceRef unit_A) \<noteq> Spec unit_A"
  by (simp add: GetSourceRef_def GetNamespace_def unit_A_def spec_A_def)

end
